theory Spec2Isabelle
  imports Main
begin

section \<open>kube-tunnel-proxy: data model\<close>

text \<open>
  The repository holds two versions of one Go program: \<^verbatim>\<open>main.go\<close>, whose tunnel
  configuration is a literal in \<^verbatim>\<open>main\<close>, and a second file that reads the
  configuration from \<^verbatim>\<open>kube-tunnel-proxy.toml\<close>. Both share \<^verbatim>\<open>Logger.Write\<close> and
  \<^verbatim>\<open>PortForward\<close>. An error value is represented by its message, the string
  \<^verbatim>\<open>err.Error()\<close>.
\<close>

type_synonym error = string

record Tunnel =
  Namespace :: string
  Selector :: string
  PodPort :: int
  LocalPort :: int

record Context =
  Name :: string
  Tunnels :: "Tunnel list"

record Config =
  Contexts :: "Context list"

record Logger =
  Context :: string
  Tag :: string

subsection \<open>Formatting (the \<^verbatim>\<open>fmt\<close> verbs the program uses)\<close>

definition nl :: string where
  "nl = [CHR 0x0A]"

function show_nat :: "nat \<Rightarrow> string" where
  "show_nat n =
     (if n < 10 then [''0123456789'' ! n]
      else show_nat (n div 10) @ [''0123456789'' ! (n mod 10)])"
  by pat_completeness auto
termination
  by (relation "measure (\<lambda>n. n)") auto

declare show_nat.simps [simp del]

text \<open>\<^verbatim>\<open>%d\<close> of a Go \<^verbatim>\<open>int\<close>.\<close>

definition show_int :: "int \<Rightarrow> string" where
  "show_int i = (if i < 0 then ''-'' @ show_nat (nat (- i)) else show_nat (nat i))"

text \<open>\<^verbatim>\<open>%v\<close> of a slice: the elements between brackets, separated by one space.\<close>

fun spaced :: "string list \<Rightarrow> string" where
  "spaced [] = []"
| "spaced [x] = x"
| "spaced (x # y # ys) = x @ '' '' @ spaced (y # ys)"

definition show_Tunnel :: "Tunnel \<Rightarrow> string" where
  "show_Tunnel t =
     ''{'' @ Namespace t @ '' '' @ Selector t @ '' '' @ show_int (PodPort t) @ '' ''
       @ show_int (LocalPort t) @ ''}''"

definition show_Context :: "Context \<Rightarrow> string" where
  "show_Context c =
     ''{'' @ Name c @ '' ['' @ spaced (map show_Tunnel (Tunnels c)) @ '']}''"

definition show_Config :: "Config \<Rightarrow> string" where
  "show_Config c = ''{['' @ spaced (map show_Context (Contexts c)) @ '']}''"

subsection \<open>\<^verbatim>\<open>Logger.Write\<close>\<close>

text \<open>
  \<^verbatim>\<open>fmt.Printf("[%s] Logger: %s, %s", this.Context, this.Tag, string(b)); return 0, nil\<close>.
  The result is the text printed to standard output and the returned pair
  (byte count, error).
\<close>

definition Logger_Write :: "Logger \<Rightarrow> string \<Rightarrow> string \<times> int \<times> error option" where
  "Logger_Write this b =
     (''['' @ Context this @ ''] Logger: '' @ Tag this @ '', '' @ b, 0, None)"

section \<open>A Session: \<^verbatim>\<open>PortForward\<close> and its interrupt handler\<close>

text \<open>
  \<^verbatim>\<open>PortForward\<close> runs in a goroutine of its own and calls four collaborators in
  turn: the cluster query (\<^verbatim>\<open>Pods(ns).List\<close>), \<^verbatim>\<open>spdy.RoundTripperFor\<close>,
  \<^verbatim>\<open>portforward.New\<close> and \<^verbatim>\<open>fw.ForwardPorts\<close>. None of them is code of this
  repository, so what each returns is an input of the model. A phase names the call
  the goroutine is waiting for; \<open>Terminal\<close> is the goroutine after its \<^verbatim>\<open>return\<close>.
\<close>

datatype phase = Resolving | Upgrading | Creating | Forwarding | Terminal

text \<open>The calls a Session has completed, in order, with the arguments that matter.\<close>

datatype call =
    ListPods string string
  | RoundTripperFor
  | PortforwardNew string "string list" Logger
  | ForwardPorts

text \<open>What a collaborator returned. \<open>ListReturns (Inr names)\<close> carries the names of
  \<^verbatim>\<open>pods.Items\<close> in the order of the reply.\<close>

datatype ext =
    ListReturns "error + string list"
  | RoundTripperReturns "error option"
  | NewReturns "error option"
  | ForwardPortsReturns "error option"

text \<open>How a step of a goroutine ends for the process.\<close>

datatype outcome = Continue | Return | Panic error | OsExit int

datatype chan = Open | Closed

datatype handler = NotSpawned | Waiting | Finished

text \<open>
  The parameters and locals of one \<^verbatim>\<open>PortForward\<close> call. \<open>contextName\<close> is the
  parameter \<^verbatim>\<open>context\<close>, the name of the context. \<open>stopChan = None\<close> is the \<^verbatim>\<open>nil\<close>
  channel (before \<^verbatim>\<open>make\<close>); \<open>signals\<close> is the number of signals buffered in the
  \<^verbatim>\<open>signals\<close> channel, whose capacity is 1; \<open>notify\<close> holds between
  \<^verbatim>\<open>signal.Notify(signals, os.Interrupt)\<close> and the deferred \<^verbatim>\<open>signal.Stop(signals)\<close>;
  \<open>handler\<close> is the state of the goroutine that waits for the interrupt; \<open>calls\<close> logs
  the calls to the collaborators that have returned.
\<close>

record Session =
  contextName :: string
  tunnel :: Tunnel
  phase :: phase
  podName :: string
  stopChan :: "chan option"
  signals :: nat
  notify :: bool
  handler :: handler
  calls :: "call list"

definition new_Session :: "string \<Rightarrow> Tunnel \<Rightarrow> Session" where
  "new_Session c t =
     \<lparr>contextName = c, tunnel = t, phase = Resolving, podName = [], stopChan = None,
      signals = 0, notify = False, handler = NotSpawned, calls = []\<rparr>"

definition no_pods_line :: "Session \<Rightarrow> string" where
  "no_pods_line s = ''['' @ contextName s @ ''] No pods found: '' @ Selector (tunnel s) @ ''.'' @ nl"

definition forwarding_line :: "Session \<Rightarrow> string \<Rightarrow> string" where
  "forwarding_line s pod =
     ''['' @ contextName s @ ''] Forwarding localhost:'' @ show_int (LocalPort (tunnel s))
       @ '' to pod '' @ pod @ '':'' @ show_int (PodPort (tunnel s)) @ nl"

definition stopped_line :: "Session \<Rightarrow> string" where
  "stopped_line s =
     ''['' @ contextName s @ ''] Stopped forwarding '' @ podName s @ '':''
       @ show_int (PodPort (tunnel s)) @ ''.'' @ nl"

definition error_line :: "error \<Rightarrow> string" where
  "error_line e = ''Error: '' @ e @ nl"

definition ports :: "Session \<Rightarrow> string list" where
  "ports s = [show_int (LocalPort (tunnel s)) @ '':'' @ show_int (PodPort (tunnel s))]"

definition logger :: "Session \<Rightarrow> Logger" where
  "logger s =
     \<lparr>Context = contextName s, Tag = podName s @ '':'' @ show_int (LocalPort (tunnel s))\<rparr>"

text \<open>
  One step of \<^verbatim>\<open>PortForward\<close>: the pending call returns \<open>x\<close> and the goroutine runs to
  its next call, to its \<^verbatim>\<open>return\<close>, to a \<^verbatim>\<open>panic\<close> or to \<^verbatim>\<open>os.Exit(1)\<close>. The
  result is the new locals, the lines printed and the outcome; \<open>None\<close> when \<open>x\<close> is not
  the answer to the pending call. The deferred \<^verbatim>\<open>signal.Stop(signals)\<close> is registered
  after the pod check, so it runs on the return after \<^verbatim>\<open>ForwardPorts\<close> only; the
  deferred \<^verbatim>\<open>wg.Done()\<close> acts on the process and is in \<open>proc_step\<close>.
\<close>

fun PortForward :: "Session \<Rightarrow> ext \<Rightarrow> (Session \<times> string list \<times> outcome) option" where
  "PortForward s (ListReturns r) =
     (if phase s \<noteq> Resolving then None
      else let s1 = s\<lparr>calls := calls s @ [ListPods (Namespace (tunnel s)) (Selector (tunnel s))]\<rparr>
        in (case r of
              Inl err \<Rightarrow> Some (s1, [], Panic err)
            | Inr [] \<Rightarrow> Some (s1\<lparr>phase := Terminal\<rparr>, [no_pods_line s], Return)
            | Inr (item0 # _) \<Rightarrow>
                Some (s1\<lparr>phase := Upgrading, podName := item0, stopChan := Some Open,
                         signals := 0, notify := True, handler := Waiting\<rparr>,
                      [forwarding_line s item0], Continue)))"
| "PortForward s (RoundTripperReturns r) =
     (if phase s \<noteq> Upgrading then None
      else let s1 = s\<lparr>calls := calls s @ [RoundTripperFor]\<rparr>
        in (case r of
              Some err \<Rightarrow> Some (s1, [error_line err], OsExit 1)
            | None \<Rightarrow> Some (s1\<lparr>phase := Creating\<rparr>, [], Continue)))"
| "PortForward s (NewReturns r) =
     (if phase s \<noteq> Creating then None
      else let s1 = s\<lparr>calls := calls s @ [PortforwardNew (podName s) (ports s) (logger s)]\<rparr>
        in (case r of
              Some err \<Rightarrow> Some (s1, [], Panic err)
            | None \<Rightarrow> Some (s1\<lparr>phase := Forwarding\<rparr>, [], Continue)))"
| "PortForward s (ForwardPortsReturns r) =
     (if phase s \<noteq> Forwarding then None
      else let s1 = s\<lparr>calls := calls s @ [ForwardPorts]\<rparr>
        in (case r of
              Some err \<Rightarrow> Some (s1, [], Panic err)
            | None \<Rightarrow> Some (s1\<lparr>phase := Terminal, notify := False\<rparr>, [], Return)))"

text \<open>
  The goroutine \<^verbatim>\<open>go func() { <-signals; if stopChan != nil { Printf(...); close(stopChan) } }()\<close>.
  It takes one signal from the buffer and ends. Closing a closed channel panics in Go.
\<close>

definition handler_step :: "Session \<Rightarrow> (Session \<times> string list \<times> outcome) option" where
  "handler_step s =
     (if handler s \<noteq> Waiting \<or> signals s = 0 then None
      else let s1 = s\<lparr>signals := signals s - 1, handler := Finished\<rparr>
        in (case stopChan s of
              None \<Rightarrow> Some (s1, [], Continue)
            | Some Open \<Rightarrow> Some (s1\<lparr>stopChan := Some Closed\<rparr>, [stopped_line s], Continue)
            | Some Closed \<Rightarrow> Some (s1, [stopped_line s], Panic ''close of closed channel'')))"

text \<open>
  An interrupt reaches a channel registered with \<^verbatim>\<open>signal.Notify\<close> by a send that does
  not block: it is dropped when the buffer (capacity 1) is full.
\<close>

definition deliver :: "Session \<Rightarrow> Session" where
  "deliver s = (if notify s \<and> signals s < 1 then s\<lparr>signals := 1\<rparr> else s)"

section \<open>The process: \<^verbatim>\<open>main\<close> and its goroutines\<close>

text \<open>
  The goroutines of the process are \<^verbatim>\<open>main\<close>, one \<^verbatim>\<open>PortForward\<close> per tunnel and the
  interrupt handler each \<^verbatim>\<open>PortForward\<close> starts. They are interleaved: an event is one
  step of one goroutine (or an interrupt sent to the process), and an execution is a
  list of events. Standard output records which goroutine printed each line.
\<close>

datatype goroutine = MainG | SessionG nat | HandlerG nat

text \<open>
  The process ends when \<^verbatim>\<open>main\<close> returns (exit code 0), on \<^verbatim>\<open>os.Exit\<close>, on a panic
  that no goroutine recovers (the Go runtime exits with code 2; nothing in the program
  calls \<^verbatim>\<open>recover\<close>), or on an interrupt while no channel is registered for it.
\<close>

datatype status = Running | Exited int | Panicked error | Interrupted

definition exit_code :: "status \<Rightarrow> int option" where
  "exit_code st =
     (case st of Running \<Rightarrow> None | Exited n \<Rightarrow> Some n | Panicked _ \<Rightarrow> Some 2
      | Interrupted \<Rightarrow> None)"

text \<open>
  Where \<^verbatim>\<open>main\<close> stands: before the configuration is loaded; at the head of the loop
  over the contexts still to set up (\<open>M_Loop []\<close> is \<^verbatim>\<open>wg.Wait()\<close>); inside the loop
  over the tunnels of one context; returned.
\<close>

datatype mainpc =
    M_Init
  | M_Loop "Context list"
  | M_Tunnels string "Tunnel list" "Context list"
  | M_Returned

record Proc =
  status :: status
  mainpc :: mainpc
  config :: Config
  wg :: nat
  sessions :: "Session list"
  stdout :: "(goroutine \<times> string) list"

text \<open>The outcome of the two calls that resolve the connection of a context:
  \<^verbatim>\<open>ClientConfig()\<close> and \<^verbatim>\<open>kubernetes.NewForConfig(cfg)\<close>.\<close>

datatype conn = ClientConfigFails error | NewForConfigFails error | ConnOk

datatype event =
    LoadConfig "error + string" "string \<Rightarrow> Config \<times> error option"
  | SetupContext conn
  | Spawn
  | WaitReturns
  | Sess nat ext
  | Handler nat
  | LibWrite nat string
  | Interrupt

text \<open>The literal configuration of \<^verbatim>\<open>main.go\<close>: a map with one entry.\<close>

definition main_go_config :: Config where
  "main_go_config =
     \<lparr>Contexts = [\<lparr>Name = ''minikube'', Tunnels =
        [\<lparr>Namespace = ''kube-system'', Selector = ''app=kubernetes-dashboard'',
          PodPort = 9090, LocalPort = 8000\<rparr>]\<rparr>]\<rparr>"

text \<open>
  The head of the second version of \<^verbatim>\<open>main\<close>: \<^verbatim>\<open>ioutil.ReadFile\<close> returned \<open>rf\<close>
  (on an error the data is \<^verbatim>\<open>nil\<close>, and \<^verbatim>\<open>string(nil)\<close> is empty); \<open>decode\<close> is
  \<^verbatim>\<open>toml.Decode\<close>, which returns the error and leaves in \<^verbatim>\<open>config\<close> what it has
  filled in. Each error is printed with \<^verbatim>\<open>fmt.Println\<close> and nothing else is done
  about it; then the configuration is printed.
\<close>

definition load_config ::
    "error + string \<Rightarrow> (string \<Rightarrow> Config \<times> error option) \<Rightarrow> Config \<times> string list" where
  "load_config rf decode =
     (let tomlData = (case rf of Inl err \<Rightarrow> [] | Inr d \<Rightarrow> d);
          out1 = (case rf of Inl err \<Rightarrow> [err @ nl] | Inr d \<Rightarrow> []);
          config = fst (decode tomlData);
          out2 = (case snd (decode tomlData) of Some err \<Rightarrow> [err @ nl] | None \<Rightarrow> [])
      in (config, out1 @ out2 @ [show_Config config @ nl]))"

definition setting_up_line :: "Context \<Rightarrow> string" where
  "setting_up_line c =
     ''['' @ Name c @ ''] Setting up '' @ show_nat (length (Tunnels c)) @ '' tunnels.'' @ nl"

definition emit :: "goroutine \<Rightarrow> string list \<Rightarrow> Proc \<Rightarrow> Proc" where
  "emit g ls P = P\<lparr>stdout := stdout P @ map (Pair g) ls\<rparr>"


text \<open>The loop over the tunnels of a context, or back to the loop over the contexts.\<close>

definition inner_loop :: "string \<Rightarrow> Tunnel list \<Rightarrow> Context list \<Rightarrow> mainpc" where
  "inner_loop name ts cs = (if ts = [] then M_Loop cs else M_Tunnels name ts cs)"

text \<open>
  What the end of a goroutine's step does to the process. \<open>Return\<close> is the return of
  \<^verbatim>\<open>PortForward\<close>, whose deferred \<^verbatim>\<open>wg.Done()\<close> panics on a counter that is already 0.
\<close>

definition finish :: "outcome \<Rightarrow> Proc \<Rightarrow> Proc" where
  "finish oc P =
     (case oc of
        Continue \<Rightarrow> P
      | Return \<Rightarrow>
          (if wg P = 0 then P\<lparr>status := Panicked ''sync: negative WaitGroup counter''\<rparr>
           else P\<lparr>wg := wg P - 1\<rparr>)
      | Panic err \<Rightarrow> P\<lparr>status := Panicked err\<rparr>
      | OsExit n \<Rightarrow> P\<lparr>status := Exited n\<rparr>)"

definition goroutine_step ::
    "goroutine \<Rightarrow> nat \<Rightarrow> (Session \<times> string list \<times> outcome) option \<Rightarrow> Proc \<Rightarrow> Proc option" where
  "goroutine_step g i r P =
     (case r of
        None \<Rightarrow> None
      | Some (s', out, oc) \<Rightarrow>
          Some (finish oc (emit g out (P\<lparr>sessions := (sessions P)[i := s']\<rparr>))))"

fun act :: "event \<Rightarrow> Proc \<Rightarrow> Proc option" where
  "act (LoadConfig rf decode) P =
     (case mainpc P of
        M_Init \<Rightarrow>
          Some (emit MainG (snd (load_config rf decode))
                  (P\<lparr>config := fst (load_config rf decode),
                     mainpc := M_Loop (Contexts (fst (load_config rf decode)))\<rparr>))
      | _ \<Rightarrow> None)"
| "act (SetupContext r) P =
     (case mainpc P of
        M_Loop (c # cs) \<Rightarrow>
          (case r of
             ClientConfigFails err \<Rightarrow>
               Some ((emit MainG [setting_up_line c] P)\<lparr>status := Panicked err\<rparr>)
           | NewForConfigFails err \<Rightarrow>
               Some ((emit MainG [setting_up_line c] P)\<lparr>status := Panicked err\<rparr>)
           | ConnOk \<Rightarrow>
               Some ((emit MainG [setting_up_line c] P)
                       \<lparr>mainpc := inner_loop (Name c) (Tunnels c) cs\<rparr>))
      | _ \<Rightarrow> None)"
| "act Spawn P =
     (case mainpc P of
        M_Tunnels name (t # ts) cs \<Rightarrow>
          Some (P\<lparr>wg := wg P + 1, sessions := sessions P @ [new_Session name t],
                  mainpc := inner_loop name ts cs\<rparr>)
      | _ \<Rightarrow> None)"
| "act WaitReturns P =
     (if mainpc P = M_Loop [] \<and> wg P = 0
      then Some (P\<lparr>mainpc := M_Returned, status := Exited 0\<rparr>) else None)"
| "act (Sess i x) P =
     (if i < length (sessions P)
      then goroutine_step (SessionG i) i (PortForward (sessions P ! i) x) P else None)"
| "act (Handler i) P =
     (if i < length (sessions P)
      then goroutine_step (HandlerG i) i (handler_step (sessions P ! i)) P else None)"
| "act (LibWrite i b) P =
     (if i < length (sessions P) \<and> phase (sessions P ! i) = Forwarding
      then Some (emit (SessionG i) [fst (Logger_Write (logger (sessions P ! i)) b)] P)
      else None)"
| "act Interrupt P =
     (if list_ex notify (sessions P) then Some (P\<lparr>sessions := map deliver (sessions P)\<rparr>)
      else Some (P\<lparr>status := Interrupted\<rparr>))"

text \<open>Only a running process takes a step.\<close>

definition proc_step :: "event \<Rightarrow> Proc \<Rightarrow> Proc option" where
  "proc_step ev P = (if status P = Running then act ev P else None)"

fun run :: "event list \<Rightarrow> Proc \<Rightarrow> Proc option" where
  "run [] P = Some P"
| "run (ev # evs) P = (case proc_step ev P of None \<Rightarrow> None | Some P' \<Rightarrow> run evs P')"

text \<open>
  The two versions start alike but for the configuration. In \<^verbatim>\<open>main.go\<close> the
  goroutines receive pointers to the loop variables \<^verbatim>\<open>context\<close> and \<^verbatim>\<open>tunnel\<close>; its
  literal configuration has one context with one tunnel, so each variable is assigned
  once and the pointers always read the values passed here. The second version passes
  the values themselves.
\<close>

datatype program = Main_go | Main_toml

definition initial :: "program \<Rightarrow> Proc" where
  "initial prog =
     (case prog of
        Main_go \<Rightarrow>
          \<lparr>status = Running, mainpc = M_Loop (Contexts main_go_config),
           config = main_go_config, wg = 0, sessions = [], stdout = []\<rparr>
      | Main_toml \<Rightarrow>
          \<lparr>status = Running, mainpc = M_Init, config = \<lparr>Contexts = []\<rparr>, wg = 0,
           sessions = [], stdout = []\<rparr>)"

section \<open>Invariants of the executions\<close>

text \<open>The tunnel a Session was started for, and the tunnels a configuration declares,
  in the order of the two loops of \<^verbatim>\<open>main\<close>.\<close>

definition spec_of :: "Session \<Rightarrow> string \<times> Tunnel" where
  "spec_of s = (contextName s, tunnel s)"

definition declared :: "Context list \<Rightarrow> (string \<times> Tunnel) list" where
  "declared cs = concat (map (\<lambda>c. map (Pair (Name c)) (Tunnels c)) cs)"

fun pending :: "mainpc \<Rightarrow> (string \<times> Tunnel) list" where
  "pending M_Init = []"
| "pending (M_Loop cs) = declared cs"
| "pending (M_Tunnels name ts cs) = map (Pair name) ts @ declared cs"
| "pending M_Returned = []"

text \<open>
  The calls of a \<^verbatim>\<open>PortForward\<close> that runs to its end, in the order of the source, and
  how many of them have returned in each phase (a Session that is \<open>Terminal\<close> without a
  handler has returned after the pod list).
\<close>

definition all_calls :: "Session \<Rightarrow> call list" where
  "all_calls s =
     [ListPods (Namespace (tunnel s)) (Selector (tunnel s)), RoundTripperFor,
      PortforwardNew (podName s) (ports s) (logger s), ForwardPorts]"

definition pos :: "Session \<Rightarrow> nat" where
  "pos s =
     (case phase s of Resolving \<Rightarrow> 0 | Upgrading \<Rightarrow> 1 | Creating \<Rightarrow> 2 | Forwarding \<Rightarrow> 3
      | Terminal \<Rightarrow> (if handler s = NotSpawned then 1 else 4))"

text \<open>
  What holds of every Session in every execution. The handler exists from the moment
  the pod is resolved; \<^verbatim>\<open>stopChan\<close> is open while the handler waits and closed once it
  has run; a returned Session is no longer registered for the interrupt; the calls that
  have returned are the first ones of \<open>all_calls\<close>, as many as the phase says (one more
  when that call has just ended the process).
\<close>

definition sess_inv :: "bool \<Rightarrow> Session \<Rightarrow> bool" where
  "sess_inv running s \<longleftrightarrow>
     (phase s = Resolving \<longrightarrow> handler s = NotSpawned) \<and>
     (handler s = NotSpawned \<longrightarrow>
        (phase s = Resolving \<or> phase s = Terminal) \<and> stopChan s = None \<and> \<not> notify s
        \<and> signals s = 0) \<and>
     (handler s = Waiting \<longrightarrow> stopChan s = Some Open) \<and>
     (handler s = Finished \<longrightarrow> stopChan s = Some Closed) \<and>
     (phase s = Terminal \<longrightarrow> \<not> notify s) \<and>
     signals s \<le> 1 \<and>
     calls s = take (length (calls s)) (all_calls s) \<and>
     pos s \<le> length (calls s) \<and> length (calls s) \<le> pos s + 1 \<and>
     (running \<or> phase s = Terminal \<longrightarrow> length (calls s) = pos s)"

text \<open>
  What holds of \<^verbatim>\<open>main\<close>: the wait group counts the Sessions that have not returned;
  the Sessions started and the tunnels still to start are the declared tunnels;
  \<^verbatim>\<open>main\<close> has returned exactly when the status is \<open>Exited 0\<close>.
\<close>

definition main_inv :: "Proc \<Rightarrow> bool" where
  "main_inv P \<longleftrightarrow>
     wg P = length (filter (\<lambda>s. phase s \<noteq> Terminal) (sessions P)) \<and>
     (mainpc P = M_Init \<longrightarrow> sessions P = []) \<and>
     (mainpc P \<noteq> M_Init \<longrightarrow>
        map spec_of (sessions P) @ pending (mainpc P) = declared (Contexts (config P))) \<and>
     (mainpc P = M_Returned \<longrightarrow> wg P = 0 \<and> status P = Exited 0) \<and>
     (status P = Exited 0 \<longrightarrow> mainpc P = M_Returned)"

definition proc_inv :: "Proc \<Rightarrow> bool" where
  "proc_inv P \<longleftrightarrow>
     (\<forall>i<length (sessions P). sess_inv (status P = Running) (sessions P ! i)) \<and> main_inv P"

subsection \<open>Concrete configurations and executions\<close>

text \<open>The tunnel of the scenario of the specification, a second tunnel, and
  configurations that declare them.\<close>

definition tunnel_x :: Tunnel where
  "tunnel_x = \<lparr>Namespace = ''ns'', Selector = ''app=x'', PodPort = 9090, LocalPort = 8000\<rparr>"

definition tunnel_y :: Tunnel where
  "tunnel_y = \<lparr>Namespace = ''ns'', Selector = ''app=y'', PodPort = 9091, LocalPort = 8001\<rparr>"

definition one_tunnel :: Config where
  "one_tunnel = \<lparr>Contexts = [\<lparr>Name = ''c1'', Tunnels = [tunnel_x]\<rparr>]\<rparr>"

definition two_tunnels :: Config where
  "two_tunnels = \<lparr>Contexts = [\<lparr>Name = ''c1'', Tunnels = [tunnel_x, tunnel_y]\<rparr>]\<rparr>"

definition two_contexts :: Config where
  "two_contexts =
     \<lparr>Contexts = [\<lparr>Name = ''c1'', Tunnels = [tunnel_x]\<rparr>, \<lparr>Name = ''c2'', Tunnels = [tunnel_y]\<rparr>]\<rparr>"

text \<open>The configuration file was read and decoded into \<open>c\<close> without an error.\<close>

definition loaded :: "Config \<Rightarrow> event" where
  "loaded c = LoadConfig (Inr ''kube-tunnel-proxy.toml'') (\<lambda>data. (c, None))"

text \<open>\<^verbatim>\<open>main\<close> has set up context \<^verbatim>\<open>c1\<close> and started its two tunnels.\<close>

definition two_started :: "event list" where
  "two_started = [loaded two_tunnels, SetupContext ConnOk, Spawn, Spawn]"

text \<open>The state an execution of a version of the program ends in.\<close>

definition state_after :: "program \<Rightarrow> event list \<Rightarrow> Proc" where
  "state_after prog evs = the (run evs (initial prog))"

text \<open>A configuration in which the decoder had filled in the first context when it
  met an error in the second.\<close>

definition partly_decoded :: Config where
  "partly_decoded =
     \<lparr>Contexts = [\<lparr>Name = ''c1'', Tunnels = [tunnel_x]\<rparr>, \<lparr>Name = [], Tunnels = []\<rparr>]\<rparr>"


text \<open>
  Counting along an execution: the steps at which Session \<open>i\<close> enters \<open>Terminal\<close>,
  and the events at which its handler runs (the only place that closes \<^verbatim>\<open>stopChan\<close>).
\<close>

definition is_terminal :: "nat \<Rightarrow> Proc \<Rightarrow> bool" where
  "is_terminal i P \<longleftrightarrow> i < length (sessions P) \<and> phase (sessions P ! i) = Terminal"

fun terminal_transitions :: "nat \<Rightarrow> event list \<Rightarrow> Proc \<Rightarrow> nat" where
  "terminal_transitions i [] P = 0"
| "terminal_transitions i (ev # evs) P =
     (case proc_step ev P of
        None \<Rightarrow> 0
      | Some P' \<Rightarrow>
          (if is_terminal i P' \<and> \<not> is_terminal i P then 1 else 0)
            + terminal_transitions i evs P')"

fun closes_stop :: "nat \<Rightarrow> event \<Rightarrow> bool" where
  "closes_stop i (Handler j) = (i = j)"
| "closes_stop i ev = False"

text \<open>An execution in which a Session is interrupted twice, and one in which the pod
  list is empty for both tunnels.\<close>

definition stopped_twice :: "event list" where
  "stopped_twice =
     [SetupContext ConnOk, Spawn, Sess 0 (ListReturns (Inr [''dashboard-1''])),
      Sess 0 (RoundTripperReturns None), Sess 0 (NewReturns None), Interrupt, Handler 0,
      Interrupt, Sess 0 (ForwardPortsReturns None)]"

definition both_no_pods :: "event list" where
  "both_no_pods =
     two_started @ [Sess 1 (ListReturns (Inr [])), Sess 0 (ListReturns (Inr [])), WaitReturns]"







fun is_return :: "nat \<Rightarrow> event \<Rightarrow> bool" where
  "is_return i (Sess j (ListReturns (Inr []))) = (i = j)"
| "is_return i (Sess j (ForwardPortsReturns None)) = (i = j)"
| "is_return i ev = False"

text \<open>An execution in which \<^verbatim>\<open>os.Exit(1)\<close> ends the process before any Session has
  returned.\<close>

definition exited_early :: "event list" where
  "exited_early =
     two_started @ [Sess 0 (ListReturns (Inr [''x-abc123''])),
       Sess 0 (RoundTripperReturns (Some ''no TLS config''))]"

section \<open>Auxiliary facts\<close>

lemma sess_inv_running:
  assumes "sess_inv True s"
  shows "calls s = take (pos s) (all_calls s)"
    and "phase s = Resolving \<Longrightarrow> handler s = NotSpawned \<and> stopChan s = None \<and> \<not> notify s \<and> signals s = 0"
    and "phase s = Upgrading \<or> phase s = Creating \<or> phase s = Forwarding \<Longrightarrow> handler s \<noteq> NotSpawned"
    and "handler s = Waiting \<Longrightarrow> stopChan s = Some Open"
    and "handler s = Finished \<Longrightarrow> stopChan s = Some Closed"
    and "signals s \<le> 1"
  using assms by (auto simp: sess_inv_def)

lemma PortForward_sess_inv:
  assumes inv: "sess_inv True s" and step: "PortForward s x = Some (s', out, oc)"
  shows "sess_inv (oc = Continue \<or> oc = Return) s'"
proof (cases x)
  case (ListReturns r)
  with step have ph: "phase s = Resolving" by (simp split: if_splits)
  note f = sess_inv_running(1,2)[OF inv]
  from f ph have c: "calls s = []" "handler s = NotSpawned" "stopChan s = None" "\<not> notify s" "signals s = 0"
    by (simp_all add: pos_def)
  show ?thesis
  proof (cases r)
    case (Inl e)
    with step ListReturns ph have "s' = s\<lparr>calls := calls s @ [ListPods (Namespace (tunnel s)) (Selector (tunnel s))]\<rparr>" "oc = Panic e"
      by (simp_all add: Let_def)
    then show ?thesis using c ph by (simp add: sess_inv_def pos_def all_calls_def)
  next
    case (Inr pods)
    show ?thesis
    proof (cases pods)
      case Nil
      with step ListReturns ph Inr have "s' = s\<lparr>calls := calls s @ [ListPods (Namespace (tunnel s)) (Selector (tunnel s))], phase := Terminal\<rparr>" "oc = Return"
        by (simp_all add: Let_def)
      then show ?thesis using c ph by (simp add: sess_inv_def pos_def all_calls_def)
    next
      case (Cons p ps)
      with step ListReturns ph Inr have "s' = s\<lparr>calls := calls s @ [ListPods (Namespace (tunnel s)) (Selector (tunnel s))],
          phase := Upgrading, podName := p, stopChan := Some Open, signals := 0, notify := True, handler := Waiting\<rparr>" "oc = Continue"
        by (simp_all add: Let_def)
      then show ?thesis using c ph by (simp add: sess_inv_def pos_def all_calls_def)
    qed
  qed
next
  case (RoundTripperReturns r)
  with step have ph: "phase s = Upgrading" by (simp split: if_splits)
  note f = sess_inv_running[OF inv]
  from f(1) ph have c: "calls s = [ListPods (Namespace (tunnel s)) (Selector (tunnel s))]"
    by (simp add: pos_def all_calls_def)
  from f(3) ph have h: "handler s \<noteq> NotSpawned" by simp
  show ?thesis
  proof (cases r)
    case None
    with step RoundTripperReturns ph have "s' = s\<lparr>calls := calls s @ [RoundTripperFor], phase := Creating\<rparr>" "oc = Continue"
      by (simp_all add: Let_def)
    then show ?thesis using c ph h f(4,5,6) by (simp add: sess_inv_def pos_def all_calls_def)
  next
    case (Some e)
    with step RoundTripperReturns ph have "s' = s\<lparr>calls := calls s @ [RoundTripperFor]\<rparr>" "oc = OsExit 1"
      by (simp_all add: Let_def)
    then show ?thesis using c ph h f(4,5,6) by (simp add: sess_inv_def pos_def all_calls_def)
  qed
next
  case (NewReturns r)
  with step have ph: "phase s = Creating" by (simp split: if_splits)
  note f = sess_inv_running[OF inv]
  from f(1) ph have c: "calls s = [ListPods (Namespace (tunnel s)) (Selector (tunnel s)), RoundTripperFor]"
    by (simp add: pos_def all_calls_def)
  from f(3) ph have h: "handler s \<noteq> NotSpawned" by simp
  show ?thesis
  proof (cases r)
    case None
    with step NewReturns ph have "s' = s\<lparr>calls := calls s @ [PortforwardNew (podName s) (ports s) (logger s)], phase := Forwarding\<rparr>" "oc = Continue"
      by (simp_all add: Let_def)
    then show ?thesis using c ph h f(4,5,6) by (simp add: sess_inv_def pos_def all_calls_def ports_def logger_def)
  next
    case (Some e)
    with step NewReturns ph have "s' = s\<lparr>calls := calls s @ [PortforwardNew (podName s) (ports s) (logger s)]\<rparr>" "oc = Panic e"
      by (simp_all add: Let_def)
    then show ?thesis using c ph h f(4,5,6) by (simp add: sess_inv_def pos_def all_calls_def ports_def logger_def)
  qed
next
  case (ForwardPortsReturns r)
  with step have ph: "phase s = Forwarding" by (simp split: if_splits)
  note f = sess_inv_running[OF inv]
  from f(1) ph have c: "calls s = [ListPods (Namespace (tunnel s)) (Selector (tunnel s)), RoundTripperFor, PortforwardNew (podName s) (ports s) (logger s)]"
    by (simp add: pos_def all_calls_def)
  from f(3) ph have h: "handler s \<noteq> NotSpawned" by simp
  show ?thesis
  proof (cases r)
    case None
    with step ForwardPortsReturns ph have "s' = s\<lparr>calls := calls s @ [ForwardPorts], phase := Terminal, notify := False\<rparr>" "oc = Return"
      by (simp_all add: Let_def)
    then show ?thesis using c ph h f(4,5,6) by (simp add: sess_inv_def pos_def all_calls_def ports_def logger_def)
  next
    case (Some e)
    with step ForwardPortsReturns ph have "s' = s\<lparr>calls := calls s @ [ForwardPorts]\<rparr>" "oc = Panic e"
      by (simp_all add: Let_def)
    then show ?thesis using c ph h f(4,5,6) by (simp add: sess_inv_def pos_def all_calls_def ports_def logger_def)
  qed
qed

lemma handler_step_sess_inv:
  assumes "sess_inv True s" "handler_step s = Some (s', out, oc)"
  shows "sess_inv True s' \<and> oc = Continue"
  using assms
  by (auto simp: sess_inv_def pos_def all_calls_def Let_def ports_def logger_def handler_step_def
      split: if_splits option.splits chan.splits)

lemma deliver_sess_inv: "sess_inv b s \<Longrightarrow> sess_inv b (deliver s)"
  by (cases "handler s")
    (auto simp: sess_inv_def deliver_def pos_def all_calls_def ports_def logger_def
      split: phase.splits)

lemma new_Session_sess_inv: "sess_inv b (new_Session name t)"
  by (auto simp: sess_inv_def new_Session_def pos_def)

lemma sess_inv_weaken: "sess_inv True s \<Longrightarrow> sess_inv b s"
  by (auto simp: sess_inv_def)

lemma proc_step_Running: "proc_step ev P = Some P' \<Longrightarrow> status P = Running"
  by (simp add: proc_step_def split: if_splits)

lemma stopped_no_step: "status P \<noteq> Running \<Longrightarrow> proc_step ev P = None"
  by (simp add: proc_step_def)

lemma run_stopped: "status P \<noteq> Running \<Longrightarrow> run evs P = Some P' \<Longrightarrow> evs = [] \<and> P' = P"
  by (cases evs) (auto simp: stopped_no_step)


lemma run_invariant:
  assumes "I P0" and "\<And>ev P P'. I P \<Longrightarrow> proc_step ev P = Some P' \<Longrightarrow> I P'"
    and "run evs P0 = Some P"
  shows "I P"
  using assms(1,3)
proof (induction evs arbitrary: P0)
  case Nil
  then show ?case by simp
next
  case (Cons ev evs)
  then show ?case using assms(2) by (auto split: option.splits)
qed

lemma finish_fields [simp]:
  "sessions (finish oc P) = sessions P" "stdout (finish oc P) = stdout P"
  "mainpc (finish oc P) = mainpc P" "config (finish oc P) = config P"
  by (auto simp: finish_def split: outcome.splits)

lemma emit_fields [simp]:
  "sessions (emit g ls P) = sessions P" "stdout (emit g ls P) = stdout P @ map (Pair g) ls"
  "mainpc (emit g ls P) = mainpc P" "config (emit g ls P) = config P"
  "wg (emit g ls P) = wg P" "status (emit g ls P) = status P"
  by (auto simp: emit_def)

lemma goroutine_step_Some:
  "goroutine_step g i r P = Some P' \<longleftrightarrow>
     (\<exists>s' out oc. r = Some (s', out, oc)
        \<and> P' = finish oc (emit g out (P\<lparr>sessions := (sessions P)[i := s']\<rparr>)))"
  by (cases r) (auto simp: goroutine_step_def)

lemma finish_status:
  "status (finish oc P) = Running \<Longrightarrow> status P = Running \<and> (oc = Continue \<or> oc = Return)"
  by (auto simp: finish_def split: outcome.splits if_splits)

text \<open>What a step does to the list of Sessions.\<close>

lemma proc_step_sessions:
  assumes "proc_step ev P = Some P'"
  shows "(sessions P' = sessions P)
     \<or> (\<exists>i x s' out oc. ev = Sess i x \<and> i < length (sessions P)
           \<and> PortForward (sessions P ! i) x = Some (s', out, oc)
           \<and> sessions P' = (sessions P)[i := s']
           \<and> (status P' = Running \<longrightarrow> oc = Continue \<or> oc = Return))
     \<or> (\<exists>i s' out oc. ev = Handler i \<and> i < length (sessions P)
           \<and> handler_step (sessions P ! i) = Some (s', out, oc)
           \<and> sessions P' = (sessions P)[i := s'])
     \<or> (ev = Interrupt \<and> sessions P' = map deliver (sessions P) \<and> status P' = Running)
     \<or> (\<exists>name t. ev = Spawn \<and> sessions P' = sessions P @ [new_Session name t]
           \<and> status P' = Running)"
proof (cases ev)
  case (Sess i x)
  with assms show ?thesis
    by (auto simp: proc_step_def goroutine_step_Some split: if_splits dest: finish_status)
next
  case (Handler i)
  with assms show ?thesis
    by (auto simp: proc_step_def goroutine_step_Some split: if_splits)
next
  case Interrupt
  with assms show ?thesis
    by (auto simp: proc_step_def split: if_splits)
next
  case Spawn
  with assms show ?thesis
    by (fastforce simp: proc_step_def split: if_splits mainpc.splits list.splits)
qed (use assms in \<open>auto simp: proc_step_def emit_def split: if_splits mainpc.splits list.splits conn.splits\<close>)

lemma proc_step_sess_inv:
  assumes "proc_step ev P = Some P'"
    and "\<forall>i<length (sessions P). sess_inv (status P = Running) (sessions P ! i)"
  shows "\<forall>i<length (sessions P'). sess_inv (status P' = Running) (sessions P' ! i)"
proof -
  have run: "status P = Running" using assms(1) by (rule proc_step_Running)
  with assms(2) have all: "\<And>i. i < length (sessions P) \<Longrightarrow> sess_inv True (sessions P ! i)"
    by simp
  from proc_step_sessions[OF assms(1)] show ?thesis
  proof (elim disjE exE conjE)
    assume "sessions P' = sessions P"
    then show ?thesis using all by (auto intro: sess_inv_weaken)
  next
    fix i x s' out oc
    assume h: "i < length (sessions P)" "PortForward (sessions P ! i) x = Some (s', out, oc)"
      "sessions P' = (sessions P)[i := s']" "status P' = Running \<longrightarrow> oc = Continue \<or> oc = Return"
    have "sess_inv (oc = Continue \<or> oc = Return) s'"
      using PortForward_sess_inv[OF all[OF h(1)] h(2)] .
    then have "sess_inv (status P' = Running) s'"
      using h(4) by (auto simp: sess_inv_def)
    then show ?thesis using h(1,3) all
      by (auto simp: nth_list_update intro: sess_inv_weaken)
  next
    fix i s' out oc
    assume h: "i < length (sessions P)" "handler_step (sessions P ! i) = Some (s', out, oc)"
      "sessions P' = (sessions P)[i := s']"
    have "sess_inv True s'"
      using handler_step_sess_inv[OF all[OF h(1)] h(2)] by simp
    then show ?thesis using h(1,3) all
      by (auto simp: nth_list_update intro: sess_inv_weaken)
  next
    assume "sessions P' = map deliver (sessions P)" "status P' = Running"
    then show ?thesis using all by (auto intro: deliver_sess_inv)
  next
    fix name t
    assume "sessions P' = sessions P @ [new_Session name t]" "status P' = Running"
    then show ?thesis using all
      by (auto simp: nth_append intro: new_Session_sess_inv)
  qed
qed

lemma filter_update_count:
  "i < length xs \<Longrightarrow>
     length (filter Q (xs[i := y])) + (if Q (xs ! i) then 1 else 0)
       = length (filter Q xs) + (if Q y then 1 else 0)"
proof (induction xs arbitrary: i)
  case Nil
  then show ?case by simp
next
  case (Cons a xs)
  show ?case
  proof (cases i)
    case 0
    then show ?thesis by simp
  next
    case (Suc j)
    with Cons.prems have "j < length xs" by simp
    from Cons.IH[OF this] show ?thesis using Suc by simp
  qed
qed

lemma PortForward_phase:
  assumes "PortForward s x = Some (s', out, oc)"
  shows "phase s \<noteq> Terminal" and "phase s' = Terminal \<longleftrightarrow> oc = Return"
    and "contextName s' = contextName s" and "tunnel s' = tunnel s"
  using assms
  by (cases x; auto simp: Let_def split: if_splits sum.splits list.splits option.splits)+

lemma handler_step_phase:
  assumes "handler_step s = Some (s', out, oc)"
  shows "phase s' = phase s" and "contextName s' = contextName s" and "tunnel s' = tunnel s"
  using assms
  by (auto simp: handler_step_def Let_def split: if_splits option.splits chan.splits)

lemma deliver_phase [simp]:
  "phase (deliver s) = phase s" "contextName (deliver s) = contextName s"
  "tunnel (deliver s) = tunnel s" "handler (deliver s) = handler s"
  "stopChan (deliver s) = stopChan s" "calls (deliver s) = calls s"
  "podName (deliver s) = podName s" "notify (deliver s) = notify s"
  by (simp_all add: deliver_def)

lemma pending_inner_loop [simp]:
  "pending (inner_loop name ts cs) = map (Pair name) ts @ declared cs"
  by (simp add: inner_loop_def)

lemma declared_Cons [simp]:
  "declared (c # cs) = map (Pair (Name c)) (Tunnels c) @ declared cs"
  by (simp add: declared_def)

lemma declared_Nil [simp]: "declared [] = []"
  by (simp add: declared_def)

lemma inner_loop_neq [simp]:
  "inner_loop name ts cs \<noteq> M_Init" "inner_loop name ts cs \<noteq> M_Returned"
  by (simp_all add: inner_loop_def)

lemma map_spec_of_update:
  "contextName s' = contextName (xs ! i) \<Longrightarrow> tunnel s' = tunnel (xs ! i) \<Longrightarrow>
     map spec_of (xs[i := s']) = map spec_of xs"
proof -
  assume "contextName s' = contextName (xs ! i)" "tunnel s' = tunnel (xs ! i)"
  then have "spec_of s' = spec_of (xs ! i)" by (simp add: spec_of_def)
  then have "map spec_of (xs[i := s']) = map spec_of (xs[i := xs ! i])"
    by (simp only: map_update)
  then show ?thesis by (simp only: list_update_id)
qed

lemma main_inv_Sess:
  assumes inv: "main_inv P" and run: "status P = Running" and i: "i < length (sessions P)"
    and pf: "PortForward (sessions P ! i) x = Some (s', out, oc)"
  shows "main_inv (finish oc (emit (SessionG i) out (P\<lparr>sessions := (sessions P)[i := s']\<rparr>)))"
proof -
  let ?Q = "\<lambda>s. phase s \<noteq> Terminal"
  note ph = PortForward_phase[OF pf]
  from filter_update_count[OF i, of ?Q s'] ph(1)
  have cnt: "length (filter ?Q ((sessions P)[i := s'])) + 1
      = length (filter ?Q (sessions P)) + (if oc = Return then 0 else 1)"
    using ph(2) by simp
  have sp: "map spec_of ((sessions P)[i := s']) = map spec_of (sessions P)"
    using ph(3,4) by (rule map_spec_of_update)
  have nonempty: "sessions P \<noteq> []" using i by auto
  from inv run have m: "mainpc P \<noteq> M_Returned" "mainpc P \<noteq> M_Init"
    using nonempty by (auto simp: main_inv_def)
  from inv have w: "wg P = length (filter ?Q (sessions P))" by (simp add: main_inv_def)
  from inv m have d: "map spec_of (sessions P) @ pending (mainpc P) = declared (Contexts (config P))"
    by (simp add: main_inv_def)
  show ?thesis
  proof (cases oc)
    case Continue
    then show ?thesis using inv cnt sp m run by (simp add: main_inv_def finish_def)
  next
    case Return
    with w cnt have "wg P = Suc (length (filter ?Q ((sessions P)[i := s'])))" by simp
    then show ?thesis using Return d sp m run by (simp add: main_inv_def finish_def)
  next
    case (Panic e)
    then show ?thesis using inv cnt sp m run by (simp add: main_inv_def finish_def)
  next
    case (OsExit n)
    with pf have "n = 1"
      by (cases x; auto simp: Let_def split: if_splits sum.splits list.splits option.splits)
    then show ?thesis using OsExit inv cnt sp m run by (simp add: main_inv_def finish_def)
  qed
qed

lemma main_inv_Handler:
  assumes inv: "main_inv P" and run: "status P = Running" and i: "i < length (sessions P)"
    and si: "sess_inv True (sessions P ! i)"
    and hs: "handler_step (sessions P ! i) = Some (s', out, oc)"
  shows "main_inv (finish oc (emit (HandlerG i) out (P\<lparr>sessions := (sessions P)[i := s']\<rparr>)))"
proof -
  let ?Q = "\<lambda>s. phase s \<noteq> Terminal"
  note ph = handler_step_phase[OF hs]
  from handler_step_sess_inv[OF si hs] have oc: "oc = Continue" by simp
  from filter_update_count[OF i, of ?Q s'] ph(1)
  have cnt: "length (filter ?Q ((sessions P)[i := s'])) = length (filter ?Q (sessions P))"
    by simp
  have sp: "map spec_of ((sessions P)[i := s']) = map spec_of (sessions P)"
    using ph(2,3) by (rule map_spec_of_update)
  have nonempty: "sessions P \<noteq> []" using i by auto
  from inv run have m: "mainpc P \<noteq> M_Returned" "mainpc P \<noteq> M_Init"
    using nonempty by (auto simp: main_inv_def)
  show ?thesis using oc inv cnt sp m run by (simp add: main_inv_def finish_def)
qed

lemma filter_map_deliver:
  "(\<lambda>s. phase s \<noteq> Terminal) \<circ> deliver = (\<lambda>s. phase s \<noteq> Terminal)"
  by (simp add: fun_eq_iff)

lemma map_spec_of_deliver: "spec_of \<circ> deliver = spec_of"
  by (simp add: fun_eq_iff spec_of_def)

lemma main_inv_step:
  assumes inv: "main_inv P" and si: "\<forall>i<length (sessions P). sess_inv True (sessions P ! i)"
    and step: "proc_step ev P = Some P'"
  shows "main_inv P'"
proof -
  have run: "status P = Running" using step by (rule proc_step_Running)
  show ?thesis
  proof (cases ev)
    case (Sess i x)
    with step run show ?thesis
      by (auto simp: proc_step_def goroutine_step_Some split: if_splits intro: main_inv_Sess[OF inv])
  next
    case (Handler i)
    with step run si show ?thesis
      by (auto simp: proc_step_def goroutine_step_Some split: if_splits intro: main_inv_Handler[OF inv])
  next
    case Interrupt
    with step run inv show ?thesis
      by (auto simp: proc_step_def main_inv_def filter_map_deliver map_spec_of_deliver
          split: if_splits)
  next
    case (LibWrite i b)
    with step run inv show ?thesis
      by (auto simp: proc_step_def main_inv_def split: if_splits)
  next
    case (LoadConfig rf decode)
    with step run inv show ?thesis
      by (auto simp: proc_step_def main_inv_def split: if_splits mainpc.splits)
  next
    case (SetupContext r)
    with step run inv show ?thesis
      by (auto simp: proc_step_def main_inv_def split: if_splits mainpc.splits list.splits conn.splits)
  next
    case Spawn
    with step run inv show ?thesis
      by (auto simp: proc_step_def main_inv_def new_Session_def spec_of_def
          split: if_splits mainpc.splits list.splits)
  next
    case WaitReturns
    with step run inv show ?thesis
      by (auto simp: proc_step_def main_inv_def split: if_splits)
  qed
qed

lemma proc_inv_step:
  assumes "proc_inv P" and "proc_step ev P = Some P'"
  shows "proc_inv P'"
proof -
  have run: "status P = Running" using assms(2) by (rule proc_step_Running)
  from assms(1) have s: "\<forall>i<length (sessions P). sess_inv (status P = Running) (sessions P ! i)"
    and m: "main_inv P" by (simp_all add: proc_inv_def)
  from s run have s': "\<forall>i<length (sessions P). sess_inv True (sessions P ! i)" by simp
  show ?thesis
    unfolding proc_inv_def
    using proc_step_sess_inv[OF assms(2) s] main_inv_step[OF m s' assms(2)] by simp
qed

lemma proc_inv_initial: "proc_inv (initial prog)"
  by (cases prog)
    (simp_all add: proc_inv_def main_inv_def initial_def main_go_config_def declared_def)

lemma proc_inv_run:
  assumes "run evs (initial prog) = Some P"
  shows "proc_inv P"
  using proc_inv_initial proc_inv_step assms by (rule run_invariant)

lemmas exec_defs =
  proc_step_def goroutine_step_def finish_def emit_def inner_loop_def new_Session_def
  load_config_def handler_step_def deliver_def initial_def loaded_def Let_def
  tunnel_x_def tunnel_y_def one_tunnel_def two_tunnels_def two_contexts_def two_started_def
  main_go_config_def



lemma proc_step_stable:
  assumes "proc_step ev P = Some P'" and "i < length (sessions P)"
    and inv: "sess_inv True (sessions P ! i)"
  shows "i < length (sessions P')"
    and "phase (sessions P ! i) = Terminal \<Longrightarrow> phase (sessions P' ! i) = Terminal"
    and "handler (sessions P ! i) = Finished \<Longrightarrow> handler (sessions P' ! i) = Finished"
proof -
  from proc_step_sessions[OF assms(1)]
  have "i < length (sessions P')
      \<and> (phase (sessions P ! i) = Terminal \<longrightarrow> phase (sessions P' ! i) = Terminal)
      \<and> (handler (sessions P ! i) = Finished \<longrightarrow> handler (sessions P' ! i) = Finished)"
  proof (elim disjE exE conjE)
    assume "sessions P' = sessions P"
    then show ?thesis using assms(2) by simp
  next
    fix j x s' out oc
    assume h: "j < length (sessions P)" "PortForward (sessions P ! j) x = Some (s', out, oc)"
      "sessions P' = (sessions P)[j := s']"
    have "i = j \<longrightarrow> handler (sessions P ! j) = Finished \<longrightarrow> handler s' = Finished"
      using h(2) sess_inv_running(2)[OF inv]
      by (cases x; auto simp: Let_def split: if_splits sum.splits list.splits option.splits)
    then show ?thesis using h assms(2) PortForward_phase(1)[OF h(2)]
      by (cases "i = j") auto
  next
    fix j s' out oc
    assume h: "j < length (sessions P)" "handler_step (sessions P ! j) = Some (s', out, oc)"
      "sessions P' = (sessions P)[j := s']"
    have "handler s' = Finished"
      using h(2) by (auto simp: handler_step_def Let_def split: if_splits option.splits chan.splits)
    then show ?thesis using h assms(2) handler_step_phase(1)[OF h(2)]
      by (cases "i = j") auto
  next
    assume "sessions P' = map deliver (sessions P)"
    then show ?thesis using assms(2) by simp
  next
    fix name t
    assume "sessions P' = sessions P @ [new_Session name t]"
    then show ?thesis using assms(2) by (simp add: nth_append)
  qed
  then show "i < length (sessions P')"
    and "phase (sessions P ! i) = Terminal \<Longrightarrow> phase (sessions P' ! i) = Terminal"
    and "handler (sessions P ! i) = Finished \<Longrightarrow> handler (sessions P' ! i) = Finished"
    by simp_all
qed

lemma proc_inv_sess:
  "proc_inv P \<Longrightarrow> status P = Running \<Longrightarrow> i < length (sessions P) \<Longrightarrow> sess_inv True (sessions P ! i)"
  by (auto simp: proc_inv_def)

lemma is_terminal_step:
  assumes "proc_inv P" and "proc_step ev P = Some P'" and "is_terminal i P"
  shows "is_terminal i P'"
proof -
  from assms(3) have i: "i < length (sessions P)" and t: "phase (sessions P ! i) = Terminal"
    by (simp_all add: is_terminal_def)
  note si = proc_inv_sess[OF assms(1) proc_step_Running[OF assms(2)] i]
  from proc_step_stable(1,2)[OF assms(2) i si] t show ?thesis by (simp add: is_terminal_def)
qed

lemma terminal_transitions_run:
  "run evs P0 = Some P \<Longrightarrow> proc_inv P0 \<Longrightarrow>
     terminal_transitions i evs P0 + (if is_terminal i P0 then 1 else 0)
       = (if is_terminal i P then 1 else 0)"
proof (induction evs arbitrary: P0)
  case Nil
  then show ?case by simp
next
  case (Cons ev evs)
  then obtain P1 where s: "proc_step ev P0 = Some P1" and r: "run evs P1 = Some P"
    by (auto split: option.splits)
  have inv1: "proc_inv P1" using Cons.prems(2) s by (rule proc_inv_step)
  from Cons.IH[OF r inv1] is_terminal_step[OF Cons.prems(2) s, of i] s show ?case
    by (auto split: if_splits)
qed

lemma finished_no_close:
  "run evs P0 = Some P \<Longrightarrow> proc_inv P0 \<Longrightarrow> i < length (sessions P0)
     \<Longrightarrow> handler (sessions P0 ! i) = Finished \<Longrightarrow> filter (closes_stop i) evs = []"
proof (induction evs arbitrary: P0)
  case Nil
  then show ?case by simp
next
  case (Cons ev evs)
  then obtain P1 where s: "proc_step ev P0 = Some P1" and r: "run evs P1 = Some P"
    by (auto split: option.splits)
  have "\<not> closes_stop i ev"
  proof
    assume "closes_stop i ev"
    then have "ev = Handler i" by (cases ev) auto
    with s Cons.prems(3,4) show False
      by (auto simp: proc_step_def goroutine_step_Some handler_step_def split: if_splits)
  qed
  moreover have "filter (closes_stop i) evs = []"
  proof -
    have inv1: "proc_inv P1" using Cons.prems(2) s by (rule proc_inv_step)
    note si = proc_inv_sess[OF Cons.prems(2) proc_step_Running[OF s] Cons.prems(3)]
    from proc_step_stable(1,3)[OF s Cons.prems(3) si] Cons.prems(4)
    have "i < length (sessions P1)" "handler (sessions P1 ! i) = Finished" by simp_all
    with Cons.IH[OF r inv1] show ?thesis by simp
  qed
  ultimately show ?case by simp
qed

lemma close_at_most_once:
  "run evs P0 = Some P \<Longrightarrow> proc_inv P0 \<Longrightarrow> length (filter (closes_stop i) evs) \<le> 1"
proof (induction evs arbitrary: P0)
  case Nil
  then show ?case by simp
next
  case (Cons ev evs)
  then obtain P1 where s: "proc_step ev P0 = Some P1" and r: "run evs P1 = Some P"
    by (auto split: option.splits)
  have inv1: "proc_inv P1" using Cons.prems(2) s by (rule proc_inv_step)
  show ?case
  proof (cases "closes_stop i ev")
    case False
    with Cons.IH[OF r inv1] show ?thesis by simp
  next
    case True
    then have ev: "ev = Handler i" by (cases ev) auto
    with s obtain s' out oc where i: "i < length (sessions P0)"
      and hs: "handler_step (sessions P0 ! i) = Some (s', out, oc)"
      and ss: "sessions P1 = (sessions P0)[i := s']"
      by (auto simp: proc_step_def goroutine_step_Some split: if_splits)
    from hs have "handler s' = Finished"
      by (auto simp: handler_step_def Let_def split: if_splits option.splits chan.splits)
    with i ss have "i < length (sessions P1)" "handler (sessions P1 ! i) = Finished" by simp_all
    from finished_no_close[OF r inv1 this] True show ?thesis by simp
  qed
qed

lemma deliver_restore: "(deliver s)\<lparr>signals := signals s\<rparr> = s"
  by (simp add: deliver_def)

lemma initial_not_terminal: "\<not> is_terminal i (initial prog)"
  by (cases prog) (simp_all add: is_terminal_def initial_def)

lemma sessions_independent:
  assumes "i \<noteq> j" and "proc_step (Sess i x) P = Some P1" and "proc_step (Sess j y) P = Some P2"
    and "status P1 = Running"
  shows "\<exists>P12. proc_step (Sess j y) P1 = Some P12 \<and> sessions P12 ! j = sessions P2 ! j"
proof -
  from assms(2) obtain s' out oc where i: "i < length (sessions P)"
    and s1: "sessions P1 = (sessions P)[i := s']"
    by (auto simp: proc_step_def goroutine_step_Some split: if_splits)
  from assms(3) obtain s'' out' oc' where j: "j < length (sessions P)"
    and pf: "PortForward (sessions P ! j) y = Some (s'', out', oc')"
    and s2: "sessions P2 = (sessions P)[j := s'']"
    by (auto simp: proc_step_def goroutine_step_Some split: if_splits)
  from s1 assms(1) have same: "sessions P1 ! j = sessions P ! j" by simp
  from s1 j have j1: "j < length (sessions P1)" by simp
  let ?P12 = "finish oc' (emit (SessionG j) out' (P1\<lparr>sessions := (sessions P1)[j := s'']\<rparr>))"
  have "proc_step (Sess j y) P1 = Some ?P12"
    using assms(4) j1 same pf by (simp add: proc_step_def goroutine_step_def)
  moreover have "sessions ?P12 ! j = sessions P2 ! j"
    using j j1 s2 by simp
  ultimately show ?thesis by blast
qed





lemma no_pods_line_deliver [simp]: "no_pods_line (deliver s) = no_pods_line s"
  by (simp add: no_pods_line_def)

















lemma PortForward_Return:
  assumes "PortForward s y = Some (s', out, oc)"
  shows "(phase s' = Terminal) = (y = ListReturns (Inr []) \<or> y = ForwardPortsReturns None)"
  using assms
  by (cases y; auto simp: Let_def split: if_splits sum.splits list.splits option.splits)

lemma is_returnD:
  "is_return i ev \<Longrightarrow> ev = Sess i (ListReturns (Inr [])) \<or> ev = Sess i (ForwardPortsReturns None)"
  by (cases "(i, ev)" rule: is_return.cases) auto

lemma is_return_Sess:
  "is_return i (Sess j y) = (i = j \<and> (y = ListReturns (Inr []) \<or> y = ForwardPortsReturns None))"
  by (cases "(i, Sess j y)" rule: is_return.cases) auto

lemma is_terminal_step_iff:
  assumes inv: "proc_inv P" and step: "proc_step ev P = Some P'"
  shows "is_terminal i P' = (is_terminal i P \<or> is_return i ev)"
proof (cases "is_terminal i P")
  case True
  with is_terminal_step[OF inv step] show ?thesis by simp
next
  case False
  from proc_step_sessions[OF step] have "is_terminal i P' = is_return i ev"
  proof (elim disjE exE conjE)
    assume h: "sessions P' = sessions P"
    have "\<not> is_return i ev"
    proof
      assume "is_return i ev"
      then obtain y where ev: "ev = Sess i y" by (auto dest: is_returnD)
      with step obtain s' out oc where i: "i < length (sessions P)"
        and pf: "PortForward (sessions P ! i) y = Some (s', out, oc)"
        and ss: "sessions P' = (sessions P)[i := s']"
        by (auto simp: proc_step_def goroutine_step_Some split: if_splits)
      from \<open>is_return i ev\<close> ev PortForward_Return[OF pf] have "phase s' = Terminal"
        by (simp add: is_return_Sess)
      with ss i have "is_terminal i P'" by (simp add: is_terminal_def)
      with h False show False by (simp add: is_terminal_def)
    qed
    with h False show ?thesis by (simp add: is_terminal_def)
  next
    fix j x s' out oc
    assume h: "ev = Sess j x" "j < length (sessions P)"
      "PortForward (sessions P ! j) x = Some (s', out, oc)" "sessions P' = (sessions P)[j := s']"
    show ?thesis
    proof (cases "i = j")
      case True
      with h PortForward_Return[OF h(3)] show ?thesis
        by (simp add: is_terminal_def is_return_Sess)
    next
      case ne: False
      with h False show ?thesis by (simp add: is_terminal_def is_return_Sess)
    qed
  next
    fix j s' out oc
    assume h: "ev = Handler j" "j < length (sessions P)"
      "handler_step (sessions P ! j) = Some (s', out, oc)" "sessions P' = (sessions P)[j := s']"
    with handler_step_phase(1)[OF h(3)] False show ?thesis
      by (cases "i = j") (simp_all add: is_terminal_def)
  next
    assume "ev = Interrupt" "sessions P' = map deliver (sessions P)"
    with False show ?thesis by (auto simp: is_terminal_def)
  next
    fix name t
    assume "ev = Spawn" "sessions P' = sessions P @ [new_Session name t]"
    with False show ?thesis
      by (auto simp: is_terminal_def nth_append new_Session_def)
  qed
  with False show ?thesis by simp
qed

lemma is_terminal_run_iff:
  "run evs P0 = Some P \<Longrightarrow> proc_inv P0 \<Longrightarrow>
     is_terminal i P = (is_terminal i P0 \<or> list_ex (is_return i) evs)"
proof (induction evs arbitrary: P0)
  case Nil
  then show ?case by simp
next
  case (Cons ev evs)
  then obtain P1 where s: "proc_step ev P0 = Some P1" and r: "run evs P1 = Some P"
    by (auto split: option.splits)
  have inv1: "proc_inv P1" using Cons.prems(2) s by (rule proc_inv_step)
  from Cons.IH[OF r inv1] is_terminal_step_iff[OF Cons.prems(2) s, of i] show ?case by auto
qed

section \<open>Properties\<close>

text \<open>
  C10. For every byte slice \<open>b\<close>, \<^verbatim>\<open>Logger.Write\<close> prints the formatted message
  \<^verbatim>\<open>[Context] Logger: Tag, b\<close> and returns \<^verbatim>\<open>(0, nil)\<close>: the error is always
  \<^verbatim>\<open>nil\<close> and the byte count is 0 whatever the length of \<open>b\<close>.
\<close>

theorem Logger_Write_returns_zero_nil:
  "fst (Logger_Write this b) = ''['' @ Context this @ ''] Logger: '' @ Tag this @ '', '' @ b
   \<and> snd (Logger_Write this b) = (0, None)"
  by (simp add: Logger_Write_def)

text \<open>
  C9. When the cluster query returns more than one pod for the selector of a tunnel,
  \<^verbatim>\<open>PortForward\<close> takes the first one in the order of the reply
  (\<^verbatim>\<open>pods.Items[0].Name\<close>): the pod name, the line printed and the tag of the logger
  are those of the first pod, and the result is the same as if the reply had held the
  first pod alone.
\<close>

theorem first_pod_is_picked:
  assumes "phase s = Resolving" and "1 < length pods"
  shows "\<exists>s'. PortForward s (ListReturns (Inr pods))
            = Some (s', [forwarding_line s (pods ! 0)], Continue)
       \<and> podName s' = pods ! 0 \<and> phase s' = Upgrading
       \<and> logger s' = \<lparr>Context = contextName s,
            Tag = pods ! 0 @ '':'' @ show_int (LocalPort (tunnel s))\<rparr>
       \<and> PortForward s (ListReturns (Inr pods)) = PortForward s (ListReturns (Inr [pods ! 0]))"
proof (cases pods)
  case Nil
  with assms(2) show ?thesis by simp
next
  case (Cons item0 rest)
  with assms(1) show ?thesis by (simp add: Let_def logger_def)
qed

theorem first_pod_is_picked_witness:
  "phase (new_Session ''c1'' tunnel_x) = Resolving
   \<and> 1 < length [''x-abc123'', ''x-def456'']
   \<and> map_option (\<lambda>r. (podName (fst r), fst (snd r)))
        (PortForward (new_Session ''c1'' tunnel_x) (ListReturns (Inr [''x-abc123'', ''x-def456''])))
      = Some (''x-abc123'', [''[c1] Forwarding localhost:8000 to pod x-abc123:9090\<newline>''])"
proof -
  have h1: "phase (new_Session ''c1'' tunnel_x) = Resolving" by (simp add: new_Session_def)
  have h2: "1 < length [''x-abc123'', ''x-def456'']" by simp
  from first_pod_is_picked[OF h1 h2] obtain s' where
    "PortForward (new_Session ''c1'' tunnel_x) (ListReturns (Inr [''x-abc123'', ''x-def456'']))
       = Some (s', [forwarding_line (new_Session ''c1'' tunnel_x) ([''x-abc123'', ''x-def456''] ! 0)], Continue)"
    "podName s' = [''x-abc123'', ''x-def456''] ! 0"
    by blast
  then show ?thesis using h1
    by (simp add: forwarding_line_def new_Session_def tunnel_x_def show_int_def show_nat.simps nl_def)
qed

text \<open>
  C1 (as amended). A failure inside a Session is not contained in it. When the
  pod-list query fails, when \<^verbatim>\<open>portforward.New\<close> fails or when \<^verbatim>\<open>ForwardPorts\<close>
  returns an error, \<^verbatim>\<open>PortForward\<close> panics and nothing recovers: the whole process
  ends with exit code 2, every Session stays in the phase it was in, and no goroutine,
  sibling Sessions included, takes another step. A step of \<^verbatim>\<open>PortForward\<close> ends its
  Session alone (it returns, and the Session is \<open>Terminal\<close>) only on a pod list with
  no items or when \<^verbatim>\<open>ForwardPorts\<close> returns \<^verbatim>\<open>nil\<close>.
\<close>

theorem session_failure_panics_process:
  assumes "status P = Running" and "i < length (sessions P)"
    and "(phase (sessions P ! i) = Resolving \<and> x = ListReturns (Inl err))
       \<or> (phase (sessions P ! i) = Creating \<and> x = NewReturns (Some err))
       \<or> (phase (sessions P ! i) = Forwarding \<and> x = ForwardPortsReturns (Some err))"
  shows "(\<exists>P'. proc_step (Sess i x) P = Some P'
       \<and> status P' = Panicked err \<and> exit_code (status P') = Some 2
       \<and> map phase (sessions P') = map phase (sessions P)
       \<and> (\<forall>ev. proc_step ev P' = None))
     \<and> (\<forall>s y s' out oc. PortForward s y = Some (s', out, oc) \<longrightarrow>
           (oc = Return) = (phase s' = Terminal)
           \<and> (phase s' = Terminal) = (y = ListReturns (Inr []) \<or> y = ForwardPortsReturns None))"
proof -
  let ?s = "sessions P ! i"
  from assms(3) obtain s' where pf: "PortForward ?s x = Some (s', [], Panic err)"
    and ph: "phase s' = phase ?s"
    by (auto simp: Let_def)
  let ?P' = "finish (Panic err) (emit (SessionG i) [] (P\<lparr>sessions := (sessions P)[i := s']\<rparr>))"
  from assms(1,2) pf have step: "proc_step (Sess i x) P = Some ?P'"
    by (simp add: proc_step_def goroutine_step_def)
  have st: "status ?P' = Panicked err" by (simp add: finish_def)
  have "map phase ((sessions P)[i := s']) = (map phase (sessions P))[i := phase ?s]"
    using ph by (simp add: map_update)
  also have "\<dots> = map phase (sessions P)"
    using assms(2) by (simp add: list_update_same_conv)
  finally have phs: "map phase (sessions ?P') = map phase (sessions P)" by simp
  from st have "\<forall>ev. proc_step ev ?P' = None" by (simp add: stopped_no_step)
  with step st phs have a: "\<exists>P'. proc_step (Sess i x) P = Some P'
       \<and> status P' = Panicked err \<and> exit_code (status P') = Some 2
       \<and> map phase (sessions P') = map phase (sessions P)
       \<and> (\<forall>ev. proc_step ev P' = None)"
    by (simp add: exit_code_def)
  have b: "(oc = Return) = (phase s' = Terminal)
       \<and> (phase s' = Terminal) = (y = ListReturns (Inr []) \<or> y = ForwardPortsReturns None)"
    if "PortForward s y = Some (s', out, oc)" for s y s' out oc
    using PortForward_phase(2)[OF that] PortForward_Return[OF that] by simp
  from a b show ?thesis by blast
qed

theorem session_failure_panics_process_witness:
  "run (two_started @ [Sess 0 (ListReturns (Inr [''x-abc123'']))]) (initial Main_toml) \<noteq> None
   \<and> map phase (sessions (state_after Main_toml
        (two_started @ [Sess 0 (ListReturns (Inr [''x-abc123'']))]))) = [Upgrading, Resolving]
   \<and> map_option (\<lambda>P. (status P, map phase (sessions P)))
        (proc_step (Sess 1 (ListReturns (Inl ''pods is forbidden'')))
          (state_after Main_toml (two_started @ [Sess 0 (ListReturns (Inr [''x-abc123'']))])))
      = Some (Panicked ''pods is forbidden'', [Upgrading, Resolving])"
proof -
  let ?P = "state_after Main_toml (two_started @ [Sess 0 (ListReturns (Inr [''x-abc123'']))])"
  have h: "status ?P = Running" "1 < length (sessions ?P)"
    "phase (sessions ?P ! 1) = Resolving" "map phase (sessions ?P) = [Upgrading, Resolving]"
    "run (two_started @ [Sess 0 (ListReturns (Inr [''x-abc123'']))]) (initial Main_toml) \<noteq> None"
    by (simp_all add: state_after_def exec_defs)
  from session_failure_panics_process[OF h(1,2),
      of "ListReturns (Inl ''pods is forbidden'')" "''pods is forbidden''"] h(3)
  obtain P' where "proc_step (Sess 1 (ListReturns (Inl ''pods is forbidden''))) ?P = Some P'"
    "status P' = Panicked ''pods is forbidden''" "map phase (sessions P') = map phase (sessions ?P)"
    by blast
  with h(4,5) show ?thesis by simp
qed

text \<open>
  The claim as stated fails: with two tunnels started, the failed pod-list query of
  the first Session ends the process, and the second Session, which had resolved its
  pod and could otherwise go on to its upgrade, takes no further step.
\<close>

theorem session_failure_counterexample:
  "run (two_started @ [Sess 1 (ListReturns (Inr [''y-1''])),
        Sess 0 (ListReturns (Inl ''pods is forbidden''))]) (initial Main_toml) \<noteq> None
   \<and> status (state_after Main_toml (two_started @ [Sess 1 (ListReturns (Inr [''y-1''])),
        Sess 0 (ListReturns (Inl ''pods is forbidden''))])) = Panicked ''pods is forbidden''
   \<and> map phase (sessions (state_after Main_toml
        (two_started @ [Sess 1 (ListReturns (Inr [''y-1''])),
          Sess 0 (ListReturns (Inl ''pods is forbidden''))]))) = [Resolving, Upgrading]
   \<and> run (two_started @ [Sess 1 (ListReturns (Inr [''y-1''])),
        Sess 0 (ListReturns (Inl ''pods is forbidden'')),
        Sess 1 (RoundTripperReturns None)]) (initial Main_toml) = None
   \<and> run (two_started @ [Sess 1 (ListReturns (Inr [''y-1''])),
        Sess 1 (RoundTripperReturns None)]) (initial Main_toml) \<noteq> None"
  by (simp add: state_after_def exec_defs)

text \<open>
  C2 (as amended). When \<^verbatim>\<open>spdy.RoundTripperFor\<close> fails, \<^verbatim>\<open>PortForward\<close> prints
  \<^verbatim>\<open>Error: <message>\<close> to standard output and calls \<^verbatim>\<open>os.Exit(1)\<close>: the whole
  process ends with exit code 1. The failing Session does not return (its deferred calls
  do not run, the wait group is as it was), every Session stays in the phase it was in,
  and no goroutine takes another step.
\<close>

theorem upgrade_failure_exits_process:
  assumes "status P = Running" and "i < length (sessions P)"
    and "phase (sessions P ! i) = Upgrading"
  shows "\<exists>P'. proc_step (Sess i (RoundTripperReturns (Some err))) P = Some P'
       \<and> status P' = Exited 1 \<and> exit_code (status P') = Some 1
       \<and> stdout P' = stdout P @ [(SessionG i, ''Error: '' @ err @ nl)]
       \<and> map phase (sessions P') = map phase (sessions P) \<and> wg P' = wg P
       \<and> (\<forall>ev. proc_step ev P' = None)"
proof -
  let ?s = "sessions P ! i"
  let ?s' = "?s\<lparr>calls := calls ?s @ [RoundTripperFor]\<rparr>"
  from assms(3) have pf: "PortForward ?s (RoundTripperReturns (Some err))
      = Some (?s', [error_line err], OsExit 1)"
    by (simp add: Let_def)
  let ?P' = "finish (OsExit 1) (emit (SessionG i) [error_line err]
      (P\<lparr>sessions := (sessions P)[i := ?s']\<rparr>))"
  from assms(1,2) pf have step: "proc_step (Sess i (RoundTripperReturns (Some err))) P = Some ?P'"
    by (simp add: proc_step_def goroutine_step_def)
  have st: "status ?P' = Exited 1" and w: "wg ?P' = wg P"
    and out: "stdout ?P' = stdout P @ [(SessionG i, ''Error: '' @ err @ nl)]"
    by (simp_all add: finish_def emit_def error_line_def)
  have "map phase ((sessions P)[i := ?s']) = (map phase (sessions P))[i := phase ?s]"
    by (simp add: map_update)
  also have "\<dots> = map phase (sessions P)"
    using assms(2) by (simp add: list_update_same_conv)
  finally have phs: "map phase (sessions ?P') = map phase (sessions P)" by simp
  from st have "\<forall>ev. proc_step ev ?P' = None" by (simp add: stopped_no_step)
  with step st phs w out show ?thesis by (simp add: exit_code_def)
qed

theorem upgrade_failure_exits_process_witness:
  "map phase (sessions (state_after Main_go
      [SetupContext ConnOk, Spawn, Sess 0 (ListReturns (Inr [''dashboard-1'']))])) = [Upgrading]
   \<and> map_option (\<lambda>P. (status P, map phase (sessions P), map snd (stdout P)))
        (proc_step (Sess 0 (RoundTripperReturns (Some ''no TLS config'')))
          (state_after Main_go
            [SetupContext ConnOk, Spawn, Sess 0 (ListReturns (Inr [''dashboard-1'']))]))
      = Some (Exited 1, [Upgrading],
          [''[minikube] Setting up 1 tunnels.\<newline>'',
           ''[minikube] Forwarding localhost:8000 to pod dashboard-1:9090\<newline>'',
           ''Error: no TLS config\<newline>''])"
proof -
  let ?P = "state_after Main_go
      [SetupContext ConnOk, Spawn, Sess 0 (ListReturns (Inr [''dashboard-1'']))]"
  have h: "status ?P = Running" "0 < length (sessions ?P)" "phase (sessions ?P ! 0) = Upgrading"
    "map phase (sessions ?P) = [Upgrading]"
    "map snd (stdout ?P) = [''[minikube] Setting up 1 tunnels.\<newline>'',
           ''[minikube] Forwarding localhost:8000 to pod dashboard-1:9090\<newline>'']"
    by (simp_all add: state_after_def exec_defs setting_up_line_def forwarding_line_def
        show_int_def show_nat.simps nl_def)
  from upgrade_failure_exits_process[OF h(1,2,3), of "''no TLS config''"]
  obtain P' where "proc_step (Sess 0 (RoundTripperReturns (Some ''no TLS config''))) ?P = Some P'"
    "status P' = Exited 1" "map phase (sessions P') = map phase (sessions ?P)"
    "stdout P' = stdout ?P @ [(SessionG 0, ''Error: '' @ ''no TLS config'' @ nl)]"
    by auto
  with h(4,5) show ?thesis by (simp add: nl_def)
qed

text \<open>
  The claim as stated fails: with two Sessions waiting for their upgrade, the failed
  upgrade of the first ends the process with exit code 1, and the second, which could
  otherwise go on, takes no further step.
\<close>

theorem upgrade_failure_counterexample:
  "run (two_started @ [Sess 0 (ListReturns (Inr [''x-abc123''])),
        Sess 1 (ListReturns (Inr [''y-1''])),
        Sess 0 (RoundTripperReturns (Some ''no TLS config''))]) (initial Main_toml) \<noteq> None
   \<and> status (state_after Main_toml (two_started @ [Sess 0 (ListReturns (Inr [''x-abc123''])),
        Sess 1 (ListReturns (Inr [''y-1''])),
        Sess 0 (RoundTripperReturns (Some ''no TLS config''))])) = Exited 1
   \<and> map phase (sessions (state_after Main_toml
        (two_started @ [Sess 0 (ListReturns (Inr [''x-abc123''])),
          Sess 1 (ListReturns (Inr [''y-1''])),
          Sess 0 (RoundTripperReturns (Some ''no TLS config''))]))) = [Upgrading, Upgrading]
   \<and> run (two_started @ [Sess 0 (ListReturns (Inr [''x-abc123''])),
        Sess 1 (ListReturns (Inr [''y-1''])),
        Sess 0 (RoundTripperReturns (Some ''no TLS config'')),
        Sess 1 (RoundTripperReturns None)]) (initial Main_toml) = None
   \<and> run (two_started @ [Sess 0 (ListReturns (Inr [''x-abc123''])),
        Sess 1 (ListReturns (Inr [''y-1''])),
        Sess 1 (RoundTripperReturns None)]) (initial Main_toml) \<noteq> None"
  by (simp add: state_after_def exec_defs)

text \<open>
  C3 (as amended). When the connection configuration of a context cannot be resolved
  (\<^verbatim>\<open>ClientConfig()\<close> or \<^verbatim>\<open>kubernetes.NewForConfig\<close> returns an error), \<^verbatim>\<open>main\<close>
  panics: the process ends with exit code 2, which is not zero. No tunnel of that
  context or of any later context is started (the Sessions are those started before, and
  \<^verbatim>\<open>main\<close> stays at that context), and no goroutine takes another step.
\<close>

theorem auth_failure_panics_process:
  assumes "status P = Running" and "mainpc P = M_Loop (c # cs)"
    and "r = ClientConfigFails err \<or> r = NewForConfigFails err"
  shows "\<exists>P'. proc_step (SetupContext r) P = Some P'
       \<and> status P' = Panicked err \<and> exit_code (status P') = Some 2
       \<and> sessions P' = sessions P \<and> mainpc P' = M_Loop (c # cs)
       \<and> (\<forall>ev. proc_step ev P' = None)"
proof -
  let ?P' = "(emit MainG [setting_up_line c] P)\<lparr>status := Panicked err\<rparr>"
  from assms have step: "proc_step (SetupContext r) P = Some ?P'"
    by (auto simp: proc_step_def)
  have "status ?P' = Panicked err" by simp
  then have "\<forall>ev. proc_step ev ?P' = None" by (simp add: stopped_no_step)
  with step assms(2) show ?thesis by (simp add: exit_code_def)
qed

theorem auth_failure_panics_process_witness:
  "mainpc (state_after Main_toml [loaded two_contexts]) = M_Loop (Contexts two_contexts)
   \<and> map_option (\<lambda>P. (status P, exit_code (status P), sessions P, mainpc P))
        (proc_step (SetupContext (ClientConfigFails ''context c1 does not exist''))
          (state_after Main_toml [loaded two_contexts]))
      = Some (Panicked ''context c1 does not exist'', Some 2, [], M_Loop (Contexts two_contexts))"
proof -
  let ?P = "state_after Main_toml [loaded two_contexts]"
  have h: "status ?P = Running"
    "mainpc ?P = M_Loop (\<lparr>Name = ''c1'', Tunnels = [tunnel_x]\<rparr> # [\<lparr>Name = ''c2'', Tunnels = [tunnel_y]\<rparr>])"
    "sessions ?P = []" "Contexts two_contexts = [\<lparr>Name = ''c1'', Tunnels = [tunnel_x]\<rparr>, \<lparr>Name = ''c2'', Tunnels = [tunnel_y]\<rparr>]"
    by (simp_all add: state_after_def proc_step_def load_config_def loaded_def initial_def Let_def
        two_contexts_def emit_def)
  from auth_failure_panics_process[OF h(1,2), of "ClientConfigFails ''context c1 does not exist''"
      "''context c1 does not exist''"]
  obtain P' where "proc_step (SetupContext (ClientConfigFails ''context c1 does not exist'')) ?P = Some P'"
    "status P' = Panicked ''context c1 does not exist''" "exit_code (status P') = Some 2"
    "sessions P' = sessions ?P" "mainpc P' = mainpc ?P"
    using h(2) by auto
  with h show ?thesis by simp
qed

text \<open>
  The claim as stated fails: with contexts c1 and c2 declared, the failure of c1 ends
  the process with no Session started, and c2, which the claim lets proceed and which
  is set up when c1 resolves, is never set up.
\<close>

theorem auth_failure_counterexample:
  "run [loaded two_contexts, SetupContext (ClientConfigFails ''context c1 does not exist'')]
        (initial Main_toml) \<noteq> None
   \<and> status (state_after Main_toml [loaded two_contexts,
        SetupContext (ClientConfigFails ''context c1 does not exist'')])
       = Panicked ''context c1 does not exist''
   \<and> sessions (state_after Main_toml [loaded two_contexts,
        SetupContext (ClientConfigFails ''context c1 does not exist'')]) = []
   \<and> run [loaded two_contexts, SetupContext (ClientConfigFails ''context c1 does not exist''),
        SetupContext ConnOk] (initial Main_toml) = None
   \<and> run [loaded two_contexts, SetupContext ConnOk, Spawn, SetupContext ConnOk, Spawn]
        (initial Main_toml) \<noteq> None"
  by (simp add: state_after_def exec_defs)

text \<open>
  C4. The claim is that a failure to read or to decode the configuration aborts the
  process before any tunnel starts. The second version of \<^verbatim>\<open>main\<close> prints the error
  and goes on. When the file cannot be read it decodes the empty string, prints the
  empty configuration, and returns with exit code 0. When decoding fails it goes on with
  what the decoder has filled in: here context c1 is set up and its tunnel is started.
\<close>

theorem config_error_is_not_fatal:
  "map_option (\<lambda>P. (status P, map snd (stdout P)))
     (run [LoadConfig (Inl ''open kube-tunnel-proxy.toml: no such file or directory'')
             (\<lambda>data. (\<lparr>Contexts = []\<rparr>, None)),
           WaitReturns] (initial Main_toml))
     = Some (Exited 0,
         [''open kube-tunnel-proxy.toml: no such file or directory\<newline>'', ''{[]}\<newline>''])
   \<and> map_option (\<lambda>P. (status P, map phase (sessions P), map snd (stdout P)))
     (run [LoadConfig (Inr ''kube-tunnel-proxy.toml'')
             (\<lambda>data. (partly_decoded, Some ''toml: type mismatch for main.Context.Name'')),
           SetupContext ConnOk, Spawn, Sess 0 (ListReturns (Inr [''x-abc123'']))]
        (initial Main_toml))
     = Some (Running, [Upgrading],
         [''toml: type mismatch for main.Context.Name\<newline>'',
          ''{[{c1 [{ns app=x 9090 8000}]} { []}]}\<newline>'',
          ''[c1] Setting up 1 tunnels.\<newline>'',
          ''[c1] Forwarding localhost:8000 to pod x-abc123:9090\<newline>''])"
  by (simp add: exec_defs partly_decoded_def show_Config_def show_Context_def show_Tunnel_def
      show_int_def show_nat.simps setting_up_line_def forwarding_line_def nl_def)



text \<open>
  C8 (as amended). In every execution a Session enters \<open>Terminal\<close> at most once and
  never leaves it: the number of steps at which Session \<open>i\<close> enters \<open>Terminal\<close> is 1
  if it is \<open>Terminal\<close> at the end and 0 otherwise, and no step takes a \<open>Terminal\<close>
  Session out of \<open>Terminal\<close>. It is \<open>Terminal\<close> at the end exactly when its
  \<^verbatim>\<open>PortForward\<close> has returned in the execution, on an empty pod list or on
  \<^verbatim>\<open>ForwardPorts\<close> returning \<^verbatim>\<open>nil\<close>; a Session whose process ends first never enters
  \<open>Terminal\<close>. Its handler runs at most once, so \<^verbatim>\<open>close(stopChan)\<close> is executed at
  most once however many interrupts arrive. An interrupt sent when \<^verbatim>\<open>stopChan\<close> is
  already closed leaves the Session as it was, but for the buffer of its \<^verbatim>\<open>signals\<close>
  channel, which nothing reads any more: the handler does not run again and nothing is
  printed. An interrupt sent when the Session is \<open>Terminal\<close> does not change it at all.
\<close>

theorem terminal_once_stop_idempotent:
  assumes "run evs (initial prog) = Some P"
  shows "terminal_transitions i evs (initial prog) = (if is_terminal i P then 1 else 0)
     \<and> is_terminal i P = list_ex (is_return i) evs
     \<and> length (filter (closes_stop i) evs) \<le> 1
     \<and> (i < length (sessions P) \<longrightarrow> stopChan (sessions P ! i) = Some Closed \<longrightarrow>
          (\<forall>P'. proc_step Interrupt P = Some P' \<longrightarrow>
             (sessions P' ! i)\<lparr>signals := signals (sessions P ! i)\<rparr> = sessions P ! i
             \<and> handler_step (sessions P' ! i) = None \<and> stdout P' = stdout P))
     \<and> (is_terminal i P \<longrightarrow>
          (\<forall>ev P'. proc_step ev P = Some P' \<longrightarrow> is_terminal i P')
          \<and> (\<forall>P'. proc_step Interrupt P = Some P' \<longrightarrow> sessions P' ! i = sessions P ! i))"
proof -
  note inv0 = proc_inv_initial[of prog]
  note inv = proc_inv_run[OF assms]
  have a: "terminal_transitions i evs (initial prog) = (if is_terminal i P then 1 else 0)"
    using terminal_transitions_run[OF assms inv0, of i] initial_not_terminal[of i prog] by simp
  have a': "is_terminal i P = list_ex (is_return i) evs"
    using is_terminal_run_iff[OF assms inv0, of i] initial_not_terminal[of i prog] by simp
  have b: "length (filter (closes_stop i) evs) \<le> 1"
    using assms inv0 by (rule close_at_most_once)
  have c: "sessions P' ! i = deliver (sessions P ! i) \<or> sessions P' ! i = sessions P ! i"
    and c': "stdout P' = stdout P" "status P = Running"
    if "proc_step Interrupt P = Some P'" "i < length (sessions P)" for P'
    using that by (auto simp: proc_step_def split: if_splits)
  have d: "(sessions P' ! i)\<lparr>signals := signals (sessions P ! i)\<rparr> = sessions P ! i
        \<and> handler_step (sessions P' ! i) = None \<and> stdout P' = stdout P"
    if i: "i < length (sessions P)" and cl: "stopChan (sessions P ! i) = Some Closed"
      and st: "proc_step Interrupt P = Some P'" for P'
  proof -
    note si = proc_inv_sess[OF inv c'(2)[OF st i] i]
    have fin: "handler (sessions P ! i) = Finished"
      using si cl by (cases "handler (sessions P ! i)") (auto simp: sess_inv_def)
    from c[OF st i] fin c'(1)[OF st i] show ?thesis
      by (auto simp: deliver_restore handler_step_def)
  qed
  have e: "is_terminal i P'" if "is_terminal i P" "proc_step ev P = Some P'" for ev P'
    using inv that(2,1) by (rule is_terminal_step)
  have f: "sessions P' ! i = sessions P ! i"
    if t: "is_terminal i P" and st: "proc_step Interrupt P = Some P'" for P'
  proof -
    from t have i: "i < length (sessions P)" and ph: "phase (sessions P ! i) = Terminal"
      by (simp_all add: is_terminal_def)
    note si = proc_inv_sess[OF inv c'(2)[OF st i] i]
    from si ph have "\<not> notify (sessions P ! i)" by (simp add: sess_inv_def)
    then have "deliver (sessions P ! i) = sessions P ! i" by (simp add: deliver_def)
    with c[OF st i] show ?thesis by auto
  qed
  from a a' b d e f show ?thesis by blast
qed

theorem terminal_once_stop_idempotent_witness:
  "run stopped_twice (initial Main_go) \<noteq> None
   \<and> is_terminal 0 (state_after Main_go stopped_twice)
   \<and> terminal_transitions 0 stopped_twice (initial Main_go) = 1
   \<and> list_ex (is_return 0) stopped_twice
   \<and> length (filter (closes_stop 0) stopped_twice) = 1
   \<and> stopChan (sessions (state_after Main_go stopped_twice) ! 0) = Some Closed
   \<and> map_option (\<lambda>P'. sessions P' ! 0) (proc_step Interrupt (state_after Main_go stopped_twice))
      = Some (sessions (state_after Main_go stopped_twice) ! 0)
   \<and> run both_no_pods (initial Main_toml) \<noteq> None
   \<and> terminal_transitions 1 both_no_pods (initial Main_toml) = 1
   \<and> is_terminal 1 (state_after Main_toml both_no_pods)"
proof -
  let ?P = "state_after Main_go stopped_twice"
  let ?Q = "state_after Main_toml both_no_pods"
  have r: "run stopped_twice (initial Main_go) = Some ?P"
    by (simp add: state_after_def stopped_twice_def exec_defs)
  have q: "run both_no_pods (initial Main_toml) = Some ?Q"
    by (simp add: state_after_def both_no_pods_def exec_defs)
  have h: "list_ex (is_return 0) stopped_twice" "stopChan (sessions ?P ! 0) = Some Closed"
    "length (filter (closes_stop 0) stopped_twice) = 1"
    "list_ex (is_return 1) both_no_pods"
    by (simp_all add: state_after_def stopped_twice_def both_no_pods_def exec_defs)
  have st: "proc_step Interrupt ?P \<noteq> None"
    by (simp add: state_after_def stopped_twice_def exec_defs)
  then obtain P' where p: "proc_step Interrupt ?P = Some P'" by auto
  from terminal_once_stop_idempotent[OF r, of 0] h(1) p
  have t: "is_terminal 0 ?P" "terminal_transitions 0 stopped_twice (initial Main_go) = 1"
    "sessions P' ! 0 = sessions ?P ! 0" by auto
  from terminal_once_stop_idempotent[OF q, of 1] h(4)
  have u: "is_terminal 1 ?Q" "terminal_transitions 1 both_no_pods (initial Main_toml) = 1"
    by auto
  from r q h p t u show ?thesis by simp
qed

text \<open>
  The claim as stated fails where it says that every Session reaches the terminal state:
  here \<^verbatim>\<open>os.Exit(1)\<close> in the first Session ends the process, neither Session has
  entered \<open>Terminal\<close>, and no further step is possible.
\<close>

theorem terminal_exactly_once_counterexample:
  "run exited_early (initial Main_toml) \<noteq> None
   \<and> status (state_after Main_toml exited_early) = Exited 1
   \<and> map phase (sessions (state_after Main_toml exited_early)) = [Upgrading, Resolving]
   \<and> terminal_transitions 0 exited_early (initial Main_toml) = 0
   \<and> terminal_transitions 1 exited_early (initial Main_toml) = 0
   \<and> run (exited_early @ [Sess 1 (ListReturns (Inr []))]) (initial Main_toml) = None
   \<and> run (exited_early @ [Interrupt]) (initial Main_toml) = None"
  by (simp add: state_after_def exited_early_def exec_defs is_terminal_def)

text \<open>
  C6 (as amended). \<^verbatim>\<open>main\<close> starts one Session per declared tunnel, in the order of
  the declaration: the Sessions started and the tunnels still to start make up the
  declared tunnels, and when \<^verbatim>\<open>main\<close> waits all of them are started. Sessions do not
  depend on one another: a step of one Session leaves the pending step of another enabled,
  with the same result for that Session, as long as the process runs. The process ends
  with exit code 0 only after a Session was started for every declared tunnel and every
  Session has reached \<open>Terminal\<close>.
\<close>

theorem one_session_per_tunnel_and_wait:
  assumes "run evs (initial prog) = Some P"
  shows "(mainpc P \<noteq> M_Init \<longrightarrow>
            map spec_of (sessions P) @ pending (mainpc P) = declared (Contexts (config P)))
     \<and> (mainpc P = M_Loop [] \<longrightarrow> map spec_of (sessions P) = declared (Contexts (config P)))
     \<and> (exit_code (status P) = Some 0 \<longrightarrow>
            map spec_of (sessions P) = declared (Contexts (config P))
            \<and> (\<forall>s\<in>set (sessions P). phase s = Terminal))
     \<and> (\<forall>i j x y P1 P2. i \<noteq> j \<longrightarrow> proc_step (Sess i x) P = Some P1 \<longrightarrow>
            proc_step (Sess j y) P = Some P2 \<longrightarrow> status P1 = Running \<longrightarrow>
            (\<exists>P12. proc_step (Sess j y) P1 = Some P12 \<and> sessions P12 ! j = sessions P2 ! j))"
proof -
  from proc_inv_run[OF assms] have m: "main_inv P" by (simp add: proc_inv_def)
  then have a: "mainpc P \<noteq> M_Init \<longrightarrow>
      map spec_of (sessions P) @ pending (mainpc P) = declared (Contexts (config P))"
    by (simp add: main_inv_def)
  then have b: "mainpc P = M_Loop [] \<longrightarrow> map spec_of (sessions P) = declared (Contexts (config P))"
    by auto
  have c: "map spec_of (sessions P) = declared (Contexts (config P))
      \<and> (\<forall>s\<in>set (sessions P). phase s = Terminal)" if "exit_code (status P) = Some 0"
  proof -
    from that have "status P = Exited 0"
      by (cases "status P") (simp_all add: exit_code_def)
    with m have r: "mainpc P = M_Returned" unfolding main_inv_def by blast
    with m have w: "wg P = 0" unfolding main_inv_def by blast
    from m have "wg P = length (filter (\<lambda>s. phase s \<noteq> Terminal) (sessions P))"
      unfolding main_inv_def by blast
    with w have "filter (\<lambda>s. phase s \<noteq> Terminal) (sessions P) = []" by simp
    then have "\<forall>s\<in>set (sessions P). phase s = Terminal"
      by (simp add: filter_empty_conv)
    with a r show ?thesis by simp
  qed
  from a b c sessions_independent show ?thesis by blast
qed

theorem one_session_per_tunnel_and_wait_witness:
  "run both_no_pods (initial Main_toml) \<noteq> None
   \<and> exit_code (status (state_after Main_toml both_no_pods)) = Some 0
   \<and> map spec_of (sessions (state_after Main_toml both_no_pods))
       = [(''c1'', tunnel_x), (''c1'', tunnel_y)]
   \<and> map phase (sessions (state_after Main_toml both_no_pods)) = [Terminal, Terminal]
   \<and> declared (Contexts (config (state_after Main_toml both_no_pods)))
       = [(''c1'', tunnel_x), (''c1'', tunnel_y)]"
proof -
  let ?P = "state_after Main_toml both_no_pods"
  have r: "run both_no_pods (initial Main_toml) = Some ?P"
    by (simp add: state_after_def both_no_pods_def exec_defs)
  have h: "exit_code (status ?P) = Some 0" "map phase (sessions ?P) = [Terminal, Terminal]"
    "declared (Contexts (config ?P)) = [(''c1'', tunnel_x), (''c1'', tunnel_y)]"
    by (simp_all add: state_after_def both_no_pods_def exec_defs exit_code_def declared_def)
  from one_session_per_tunnel_and_wait[OF r] h(1)
  have "map spec_of (sessions ?P) = declared (Contexts (config ?P))" by blast
  with r h show ?thesis by simp
qed

text \<open>
  The claim as stated fails for the other ways the process ends: here \<^verbatim>\<open>os.Exit(1)\<close>
  in the first Session ends the process while the first Session is in \<open>Upgrading\<close> and
  the second one is forwarding.
\<close>

theorem exit_before_sessions_terminal_counterexample:
  "run (two_started @ [Sess 0 (ListReturns (Inr [''x-abc123''])),
        Sess 1 (ListReturns (Inr [''y-1''])), Sess 1 (RoundTripperReturns None),
        Sess 1 (NewReturns None), Sess 0 (RoundTripperReturns (Some ''no TLS config''))])
        (initial Main_toml) \<noteq> None
   \<and> exit_code (status (state_after Main_toml
        (two_started @ [Sess 0 (ListReturns (Inr [''x-abc123''])),
          Sess 1 (ListReturns (Inr [''y-1''])), Sess 1 (RoundTripperReturns None),
          Sess 1 (NewReturns None), Sess 0 (RoundTripperReturns (Some ''no TLS config''))])))
       = Some 1
   \<and> map phase (sessions (state_after Main_toml
        (two_started @ [Sess 0 (ListReturns (Inr [''x-abc123''])),
          Sess 1 (ListReturns (Inr [''y-1''])), Sess 1 (RoundTripperReturns None),
          Sess 1 (NewReturns None), Sess 0 (RoundTripperReturns (Some ''no TLS config''))])))
       = [Upgrading, Forwarding]"
  by (simp add: state_after_def exec_defs exit_code_def)



end
